theory Spec2Isabelle
  imports Main "HOL-Library.Word"
begin

section \<open>bsdsocker.c: a BPF packet sniffer\<close>

text \<open>
  A shallow embedding of \<^verbatim>\<open>src/bsdsocker.c\<close>: the device probing of
  \<^verbatim>\<open>initializeDevice\<close>, the capture loop and buffer walk of \<^verbatim>\<open>sniff\<close>, and
  \<^verbatim>\<open>signalHandler\<close>. System calls are inputs of the model (what \<^verbatim>\<open>open\<close>,
  \<^verbatim>\<open>ioctl\<close> and \<^verbatim>\<open>read\<close> answer); what the program passes to its collaborators
  (the paths it opens, the frames it hands to \<^verbatim>\<open>EthernetFrame_output\<close>) is recorded
  in traces.
\<close>

subsection \<open>Word alignment\<close>

text \<open>
  Modelled from the spec: \<^verbatim>\<open>BPF_WORDALIGN\<close> is a macro of the system header
  \<^verbatim>\<open>net/bpf.h\<close>, which is not part of the repository. The specification describes it
  as rounding \<open>x\<close> up to the next multiple of the platform's alignment unit. The unit
  (\<^verbatim>\<open>BPF_ALIGNMENT\<close>) is a parameter.
\<close>

definition wordAlign :: "nat \<Rightarrow> nat \<Rightarrow> nat" where
  "wordAlign unit x = ((x + (unit - 1)) div unit) * unit"


subsection \<open>The capture buffer and the record header\<close>

text \<open>\<^verbatim>\<open>OCTET\<close> is declared in \<^verbatim>\<open>common.h\<close>, which is not in the sources: one octet.\<close>

type_synonym OCTET = "8 word"

text \<open>
  \<^verbatim>\<open>struct bpf_hdr\<close> is declared in \<^verbatim>\<open>net/bpf.h\<close>; its layout differs between
  platforms. The model takes what \<^verbatim>\<open>sniff\<close> uses of it as parameters: the alignment
  unit, the offsets of the fields \<^verbatim>\<open>bh_caplen\<close> (a 32-bit unsigned integer) and
  \<^verbatim>\<open>bh_hdrlen\<close> (a 16-bit unsigned integer) inside the header, and the byte order.
\<close>

record bpf_abi =
  BPF_ALIGNMENT :: nat
  bh_caplen_at :: nat
  bh_hdrlen_at :: nat
  big_endian :: bool

datatype fault = NullBuffer | OutsideBuffer

text \<open>
  The buffer is the list of the \<^verbatim>\<open>bpf_buff_size\<close> octets that \<^verbatim>\<open>malloc\<close> returned.
  A load at an offset outside the allocation has no defined behaviour in C; the model
  answers \<^term>\<open>OutsideBuffer\<close>.
\<close>

definition load :: "OCTET list \<Rightarrow> nat list \<Rightarrow> fault + OCTET list" where
  "load buf offs =
     (if list_all (\<lambda>off. off < length buf) offs then Inr (map (\<lambda>off. buf ! off) offs)
      else Inl OutsideBuffer)"

text \<open>The value of a field from its octets in memory order.\<close>

definition native :: "bool \<Rightarrow> OCTET list \<Rightarrow> nat" where
  "native be bs = foldl (\<lambda>acc b. acc * 256 + unat b) 0 (if be then bs else rev bs)"

text \<open>
  The offsets of the buffer that \<^verbatim>\<open>bpf_packet->bh_hdrlen\<close> and
  \<^verbatim>\<open>bpf_packet->bh_caplen\<close> load when \<^verbatim>\<open>bpf_packet\<close> is at offset \<open>p\<close>.
\<close>

definition hdrlen_octets :: "bpf_abi \<Rightarrow> nat \<Rightarrow> nat list" where
  "hdrlen_octets abi p = [p + bh_hdrlen_at abi, p + bh_hdrlen_at abi + 1]"

definition caplen_octets :: "bpf_abi \<Rightarrow> nat \<Rightarrow> nat list" where
  "caplen_octets abi p =
     [p + bh_caplen_at abi, p + bh_caplen_at abi + 1,
      p + bh_caplen_at abi + 2, p + bh_caplen_at abi + 3]"

definition bh_hdrlen :: "bpf_abi \<Rightarrow> OCTET list \<Rightarrow> nat \<Rightarrow> fault + 16 word" where
  "bh_hdrlen abi buf p =
     (case load buf (hdrlen_octets abi p) of
        Inl e \<Rightarrow> Inl e
      | Inr bs \<Rightarrow> Inr (of_nat (native (big_endian abi) bs)))"

definition bh_caplen :: "bpf_abi \<Rightarrow> OCTET list \<Rightarrow> nat \<Rightarrow> fault + 32 word" where
  "bh_caplen abi buf p =
     (case load buf (caplen_octets abi p) of
        Inl e \<Rightarrow> Inl e
      | Inr bs \<Rightarrow> Inr (of_nat (native (big_endian abi) bs)))"

subsection \<open>The buffer walk (the inner loop of \<^verbatim>\<open>sniff\<close>)\<close>

text \<open>
  \<open>ptr\<close> is the offset of the C pointer \<^verbatim>\<open>ptr\<close> from \<^verbatim>\<open>bpf_buffer\<close>; \<open>frames\<close>
  lists the calls of \<^verbatim>\<open>EthernetFrame_output\<close> so far, each as the offset of the frame
  it was given and the captured length.
\<close>

record walk_state =
  ptr :: nat
  frames :: "(nat \<times> nat) list"

text \<open>
  The amount \<^verbatim>\<open>ptr\<close> advances by. \<^verbatim>\<open>bh_hdrlen + bh_caplen\<close> is computed in
  32-bit unsigned arithmetic (the 16-bit operand is promoted), so the sum wraps; the
  aligning of the sum is the specification's rounding up.
\<close>

definition record_length :: "bpf_abi \<Rightarrow> 16 word \<Rightarrow> 32 word \<Rightarrow> nat" where
  "record_length abi h c = wordAlign (BPF_ALIGNMENT abi) (unat ((ucast h :: 32 word) + c))"

text \<open>
  One pass through the body of the inner loop (lines 180 to 190).
  \<^verbatim>\<open>EthernetFrame_output\<close> is not in the sources: the model records the call, and
  takes from the specification that it returns and does not change the buffer, so the
  second load of each field gives the value of the first.
\<close>

definition walk_step :: "bpf_abi \<Rightarrow> OCTET list \<Rightarrow> walk_state \<Rightarrow> fault + walk_state" where
  "walk_step abi buf s =
     (case bh_hdrlen abi buf (ptr s) of
        Inl e \<Rightarrow> Inl e
      | Inr h \<Rightarrow>
         (case bh_caplen abi buf (ptr s) of
            Inl e \<Rightarrow> Inl e
          | Inr c \<Rightarrow>
              Inr \<lparr>ptr = ptr s + record_length abi h c,
                   frames = frames s @ [(ptr s + unat h, unat c)]\<rparr>))"

text \<open>
  The inner loop \<^verbatim>\<open>while (ptr < bpf_buffer + read_bytes)\<close>. It need not terminate:
  \<open>None\<close> is the walk that runs forever.
\<close>

partial_function (option) walk ::
  "bpf_abi \<Rightarrow> OCTET list \<Rightarrow> nat \<Rightarrow> walk_state \<Rightarrow> (fault + walk_state) option" where
  "walk abi buf read_bytes s =
     (if ptr s < read_bytes then
        (case walk_step abi buf s of
           Inl e \<Rightarrow> Some (Inl e)
         | Inr s' \<Rightarrow> walk abi buf read_bytes s')
      else Some (Inr s))"

declare walk.simps [code]

text \<open>The state of the walk after at most \<open>k\<close> passes through the loop body.\<close>

fun walk_upto ::
  "nat \<Rightarrow> bpf_abi \<Rightarrow> OCTET list \<Rightarrow> nat \<Rightarrow> walk_state \<Rightarrow> fault + walk_state" where
  "walk_upto 0 abi buf read_bytes s = Inr s"
| "walk_upto (Suc k) abi buf read_bytes s =
     (if ptr s < read_bytes then
        (case walk_step abi buf s of
           Inl e \<Rightarrow> Inl e
         | Inr s' \<Rightarrow> walk_upto k abi buf read_bytes s')
      else Inr s)"

definition walk_start :: walk_state where
  "walk_start = \<lparr>ptr = 0, frames = []\<rparr>"


subsection \<open>The running flag and \<^verbatim>\<open>signalHandler\<close>\<close>

text \<open>
  The process state the handler touches: the flag \<^verbatim>\<open>running\<close> and the disposition
  of \<^verbatim>\<open>SIGINT\<close>, the only signal the program calls \<^verbatim>\<open>signal\<close> for.
\<close>

datatype disposition = SIG_DFL | CallsSignalHandler

record process =
  running :: bool
  sigint_disposition :: disposition

definition SIGINT :: int where
  "SIGINT = 2"

text \<open>The call \<^verbatim>\<open>signal(SIGINT, signalHandler)\<close>.\<close>

definition signal_SIGINT :: "process \<Rightarrow> process" where
  "signal_SIGINT p = p\<lparr>sigint_disposition := CallsSignalHandler\<rparr>"

definition signalHandler :: "int \<Rightarrow> process \<Rightarrow> process" where
  "signalHandler sig_num p =
     (let p1 = signal_SIGINT p
      in if sig_num = SIGINT then p1\<lparr>running := False\<rparr> else p1)"

text \<open>
  The process after \<^verbatim>\<open>static bool running = true\<close> and the call of \<^verbatim>\<open>signal\<close> in
  \<^verbatim>\<open>main\<close>.
\<close>

definition process_start :: process where
  "process_start = signal_SIGINT \<lparr>running = True, sigint_disposition = SIG_DFL\<rparr>"

text \<open>
  The delivery of \<^verbatim>\<open>SIGINT\<close> to the process. Under the default disposition the
  process is terminated (\<open>None\<close>). Some implementations of \<^verbatim>\<open>signal\<close> reset the
  disposition to the default when they deliver the signal to a handler, others keep it:
  \<open>resets\<close> chooses.
\<close>

definition deliver_SIGINT :: "bool \<Rightarrow> process \<Rightarrow> process option" where
  "deliver_SIGINT resets p =
     (case sigint_disposition p of
        SIG_DFL \<Rightarrow> None
      | CallsSignalHandler \<Rightarrow>
          Some (signalHandler SIGINT
                  (if resets then p\<lparr>sigint_disposition := SIG_DFL\<rparr> else p)))"

subsection \<open>The capture loop (\<^verbatim>\<open>sniff\<close>)\<close>

text \<open>
  What \<^verbatim>\<open>read\<close> answers: a failure (it returns \<open>-1\<close>; the argument is \<^verbatim>\<open>errno\<close>) or
  the octets the kernel has for the caller, of which it copies at most
  \<^verbatim>\<open>bpf_buff_size\<close> into the buffer and returns the count.
\<close>

datatype read_outcome = ReadFails int | ReadData "OCTET list"

definition read_return :: "nat \<Rightarrow> read_outcome \<Rightarrow> int" where
  "read_return bpf_buff_size a =
     (case a of ReadFails e \<Rightarrow> - 1 | ReadData d \<Rightarrow> int (min (length d) bpf_buff_size))"

text \<open>The buffer after \<^verbatim>\<open>memset\<close> and \<^verbatim>\<open>read\<close>.\<close>

definition buffer_after_read :: "nat \<Rightarrow> read_outcome \<Rightarrow> OCTET list" where
  "buffer_after_read bpf_buff_size a =
     (case a of
        ReadFails e \<Rightarrow> replicate bpf_buff_size 0
      | ReadData d \<Rightarrow> take bpf_buff_size d @ replicate (bpf_buff_size - length d) 0)"

text \<open>
  The input of one iteration of the outer loop: the answer of its \<^verbatim>\<open>read\<close>, and the
  runs of \<^verbatim>\<open>signalHandler\<close> (their \<^verbatim>\<open>sig_num\<close>) between the loop test that
  started the iteration and the next loop test.
\<close>

record iteration =
  from_read :: read_outcome
  handler_runs :: "int list"

text \<open>
  What the loop does that its environment sees: the calls of \<^verbatim>\<open>read\<close> with their
  return value, and the calls of \<^verbatim>\<open>EthernetFrame_output\<close> with the offset of the
  frame and the captured length.
\<close>

datatype event = Read int | Frame nat nat

text \<open>
  How the model of \<^verbatim>\<open>sniff\<close> ends: the function returns; the inputs given are used
  up with the loop still running; the buffer walk of the last iteration runs forever;
  or a load has no defined behaviour. In the last two cases the frames of that
  iteration are not listed.
\<close>

datatype ending = Returned | StillRunning | WalkDiverges | Faulted fault

definition frame_events :: "walk_state \<Rightarrow> event list" where
  "frame_events s = map (\<lambda>(off, len). Frame off len) (frames s)"

text \<open>
  \<open>allocated\<close> is whether \<^verbatim>\<open>malloc\<close> returned a buffer; with a null pointer the
  \<^verbatim>\<open>memset\<close> of the first iteration has no defined behaviour.
\<close>

fun sniff ::
  "bpf_abi \<Rightarrow> bool \<Rightarrow> nat \<Rightarrow> process \<Rightarrow> iteration list \<Rightarrow> event list \<times> ending" where
  "sniff abi allocated bpf_buff_size p [] =
     (if running p then ([], StillRunning) else ([], Returned))"
| "sniff abi allocated bpf_buff_size p (it # its) =
     (if running p then
        (if \<not> allocated then ([], Faulted NullBuffer)
         else
           (let read_bytes = read_return bpf_buff_size (from_read it);
                bpf_buffer = buffer_after_read bpf_buff_size (from_read it);
                p' = fold signalHandler (handler_runs it) p
            in if read_bytes > 0 then
                 (case walk abi bpf_buffer (nat read_bytes) walk_start of
                    None \<Rightarrow> ([Read read_bytes], WalkDiverges)
                  | Some (Inl e) \<Rightarrow> ([Read read_bytes], Faulted e)
                  | Some (Inr s) \<Rightarrow>
                      (case sniff abi allocated bpf_buff_size p' its of
                         (evs, e) \<Rightarrow> (Read read_bytes # frame_events s @ evs, e)))
               else
                 (case sniff abi allocated bpf_buff_size p' its of
                    (evs, e) \<Rightarrow> (Read read_bytes # evs, e))))
      else ([], Returned))"

subsection \<open>Opening the device (\<^verbatim>\<open>initializeDevice\<close>)\<close>

text \<open>What a system call answers: it fails (returns \<open>-1\<close> and sets \<^verbatim>\<open>errno\<close>) or returns a value.\<close>

datatype answer = Fails int | Gives int

definition return_value :: "answer \<Rightarrow> int" where
  "return_value a = (case a of Fails e \<Rightarrow> - 1 | Gives v \<Rightarrow> v)"

definition errno_after :: "int \<Rightarrow> answer \<Rightarrow> int" where
  "errno_after errno a = (case a of Fails e \<Rightarrow> e | Gives v \<Rightarrow> errno)"

definition EACCES :: int where
  "EACCES = 13"

definition IFNAMSIZ :: nat where
  "IFNAMSIZ = 16"

text \<open>
  The system as \<^verbatim>\<open>initializeDevice\<close> meets it: what \<^verbatim>\<open>open\<close> answers for a path
  (opened \<^verbatim>\<open>O_RDWR | O_NONBLOCK\<close>), and what the three \<^verbatim>\<open>ioctl\<close> requests answer
  for a descriptor; \<^verbatim>\<open>BIOCGBLEN\<close> also gives the buffer length it stores.
\<close>

record system =
  sys_open :: "string \<Rightarrow> answer"
  ioctl_BIOCSETIF :: "int \<Rightarrow> string \<Rightarrow> answer"
  ioctl_BIOCIMMEDIATE :: "int \<Rightarrow> answer"
  ioctl_BIOCGBLEN :: "int \<Rightarrow> answer \<times> int"

text \<open>
  Modelled from the spec: \<^verbatim>\<open>fatal\<close> is declared in \<^verbatim>\<open>logger.h\<close>, which is not in
  the sources. The specification says that every failure of the initialisation
  terminates the process, and names the failures; a call of \<^verbatim>\<open>fatal\<close> ends the model
  with the failure of that name. The last three failures are not calls of \<^verbatim>\<open>fatal\<close>
  but places where the C code has no defined behaviour: \<^verbatim>\<open>sprintf\<close> or \<^verbatim>\<open>strcpy\<close>
  writing past its destination, and the test of \<^verbatim>\<open>bpf\<close> before any assignment.
\<close>

datatype init_failure =
    PermissionDenied
  | DeviceUnavailable nat int
  | InterfaceBindFailed int
  | ConfigurationFailed int
  | PathOverflow
  | NameOverflow
  | UnassignedDescriptor

text \<open>\<^verbatim>\<open>sprintf(buffer_char, "/dev/bpf%u", i)\<close> into \<^verbatim>\<open>char buffer_char[11]\<close>.\<close>

definition digit :: "nat \<Rightarrow> char" where
  "digit d = ''0123456789'' ! d"

function decimal :: "nat \<Rightarrow> string" where
  "decimal n = (if n < 10 then [digit n] else decimal (n div 10) @ [digit (n mod 10)])"
  by pat_completeness auto
termination
  by (relation "measure (\<lambda>n. n)") auto

declare decimal.simps [simp del]

definition bpf_path :: "nat \<Rightarrow> string" where
  "bpf_path i = ''/dev/bpf'' @ decimal i"

definition sprintf_path :: "nat \<Rightarrow> string option" where
  "sprintf_path i = (if length (bpf_path i) + 1 \<le> 11 then Some (bpf_path i) else None)"

text \<open>
  The variables of the probing loop, and \<open>opened\<close>: the paths given to \<^verbatim>\<open>open\<close> so
  far, in order. \<open>bpf\<close> is \<open>None\<close> until the first assignment.
\<close>

record probe =
  i :: nat
  bpf :: "int option"
  errno :: int
  buffer_char :: string
  opened :: "string list"

text \<open>
  The loop of lines 98 to 112. It ends with a failure (a call of \<^verbatim>\<open>fatal\<close>, or no
  defined behaviour) or leaves the loop, by \<^verbatim>\<open>break\<close> or by its test.
\<close>

function open_loop :: "system \<Rightarrow> nat \<Rightarrow> probe \<Rightarrow> init_failure option \<times> probe" where
  "open_loop sys MAX_BPF_DEVICES s =
     (if i s < MAX_BPF_DEVICES then
        (case sprintf_path (i s) of
           None \<Rightarrow> (Some PathOverflow, s)
         | Some path \<Rightarrow>
             (let a = sys_open sys path;
                  s' = s\<lparr>bpf := Some (return_value a), errno := errno_after (errno s) a,
                         buffer_char := path, opened := opened s @ [path]\<rparr>
              in if return_value a \<noteq> - 1 then (None, s')
                 else if errno s' = EACCES then (Some PermissionDenied, s')
                 else open_loop sys MAX_BPF_DEVICES (s'\<lparr>i := i s + 1\<rparr>)))
      else (None, s))"
  by pat_completeness auto
termination
  by (relation "measure (\<lambda>(sys, m, s). m - i s)") auto

declare open_loop.simps [simp del]

text \<open>
  Lines 93 to 120: the loop from \<open>i = 0\<close>, then the test of \<^verbatim>\<open>bpf\<close>. The result is
  the variables at the end, and the failure or the descriptor that was opened.
\<close>

definition open_device :: "system \<Rightarrow> nat \<Rightarrow> int \<Rightarrow> probe \<times> (init_failure + int)" where
  "open_device sys MAX_BPF_DEVICES errno0 =
     (case open_loop sys MAX_BPF_DEVICES
             \<lparr>i = 0, bpf = None, errno = errno0, buffer_char = [], opened = []\<rparr> of
        (Some f, s) \<Rightarrow> (s, Inl f)
      | (None, s) \<Rightarrow>
          (case bpf s of
             None \<Rightarrow> (s, Inl UnassignedDescriptor)
           | Some d \<Rightarrow>
               if d = - 1 then (s, Inl (DeviceUnavailable MAX_BPF_DEVICES (errno s)))
               else (s, Inr d)))"

text \<open>
  Lines 122 to 154: the three \<^verbatim>\<open>ioctl\<close> calls on the descriptor \<open>d\<close>, with
  \<^verbatim>\<open>errno\<close> as the opening left it. The result is the descriptor and the buffer
  length stored through the two pointers.
\<close>

definition configure_device ::
  "system \<Rightarrow> string \<Rightarrow> int \<Rightarrow> int \<Rightarrow> init_failure + int \<times> int" where
  "configure_device sys interface_name e0 d =
     (if IFNAMSIZ < length interface_name + 1 then Inl NameOverflow
      else
        (let a1 = ioctl_BIOCSETIF sys d interface_name; e1 = errno_after e0 a1
         in if return_value a1 = - 1 then Inl (InterfaceBindFailed e1)
            else
              (let a2 = ioctl_BIOCIMMEDIATE sys d; e2 = errno_after e1 a2
               in if return_value a2 = - 1 then Inl (ConfigurationFailed e2)
                  else
                    (let a3 = fst (ioctl_BIOCGBLEN sys d); e3 = errno_after e2 a3
                     in if return_value a3 = - 1 then Inl (ConfigurationFailed e3)
                        else Inr (d, snd (ioctl_BIOCGBLEN sys d))))))"

text \<open>
  \<^verbatim>\<open>initializeDevice\<close>: the paths it gave to \<^verbatim>\<open>open\<close>, in order, and either the
  failure it ended with or the descriptor and the buffer length it stored.
\<close>

definition initializeDevice ::
  "system \<Rightarrow> nat \<Rightarrow> string \<Rightarrow> int \<Rightarrow> string list \<times> (init_failure + int \<times> int)" where
  "initializeDevice sys MAX_BPF_DEVICES interface_name errno0 =
     (case open_device sys MAX_BPF_DEVICES errno0 of
        (s, Inl f) \<Rightarrow> (opened s, Inl f)
      | (s, Inr d) \<Rightarrow> (opened s, configure_device sys interface_name (errno s) d))"

subsection \<open>Auxiliary definitions for the statements\<close>

text \<open>The variables of the probing loop after \<open>k\<close> opens that all failed, the \<open>m\<close>-th with \<open>err m\<close>.\<close>

definition after_failures :: "(nat \<Rightarrow> int) \<Rightarrow> int \<Rightarrow> nat \<Rightarrow> probe" where
  "after_failures err errno0 k =
     \<lparr>i = k,
      bpf = (if k = 0 then None else Some (- 1)),
      errno = (if k = 0 then errno0 else err (k - 1)),
      buffer_char = (if k = 0 then [] else bpf_path (k - 1)),
      opened = map bpf_path [0..<k]\<rparr>"

text \<open>
  Example systems: every \<^verbatim>\<open>ioctl\<close> succeeds and the buffer length is 4096; \<open>opn\<close> is
  what \<^verbatim>\<open>open\<close> answers. Error 2 is \<^verbatim>\<open>ENOENT\<close>, 16 is \<^verbatim>\<open>EBUSY\<close>.
\<close>

definition example_system :: "(string \<Rightarrow> answer) \<Rightarrow> system" where
  "example_system opn =
     \<lparr>sys_open = opn,
      ioctl_BIOCSETIF = (\<lambda>d n. Gives 0),
      ioctl_BIOCIMMEDIATE = (\<lambda>d. Gives 0),
      ioctl_BIOCGBLEN = (\<lambda>d. (Gives 0, 4096))\<rparr>"

definition denied_at_1 :: system where
  "denied_at_1 = example_system (\<lambda>p. if p = ''/dev/bpf1'' then Fails EACCES else Fails 2)"

definition only_2_opens :: system where
  "only_2_opens = example_system (\<lambda>p. if p = ''/dev/bpf2'' then Gives 3 else Fails 2)"

definition none_opens :: system where
  "none_opens = example_system (\<lambda>p. if p = ''/dev/bpf2'' then Fails 16 else Fails 2)"

text \<open>
  An example platform (little-endian, alignment unit 8, \<^verbatim>\<open>bh_caplen\<close> at offset 8 and
  \<^verbatim>\<open>bh_hdrlen\<close> at offset 16 of the header) and example reads: record A with header
  length 18 and captured length 46 (64 octets), record B with header length 18 and
  captured length 10 (28 octets, 32 with its padding), and record A followed by six
  octets.
\<close>

definition example_abi :: bpf_abi where
  "example_abi = \<lparr>BPF_ALIGNMENT = 8, bh_caplen_at = 8, bh_hdrlen_at = 16, big_endian = False\<rparr>"

definition record_A :: "OCTET list" where
  "record_A = replicate 8 0 @ [46, 0, 0, 0, 46, 0, 0, 0, 18, 0] @ replicate 46 1"

definition unpadded_B :: "OCTET list" where
  "unpadded_B = replicate 8 0 @ [10, 0, 0, 0, 10, 0, 0, 0, 18, 0] @ replicate 10 1"

definition record_B :: "OCTET list" where
  "record_B = unpadded_B @ replicate 4 0"

definition two_records :: "OCTET list" where
  "two_records = record_A @ record_B"

definition trailing_six :: "OCTET list" where
  "trailing_six = record_A @ [1, 2, 3, 4, 5, 6]"

text \<open>
  A read of \<open>n\<close> octets is packed from offset \<open>p\<close> on when the records the walk meets from
  there are complete: the header at \<open>p\<close> can be loaded, its header length covers the
  two fields, and header and captured octets end at or before \<open>n\<close>; the next record is
  where the walk looks for it. The last record need not be padded.
\<close>

inductive packed :: "bpf_abi \<Rightarrow> OCTET list \<Rightarrow> nat \<Rightarrow> nat \<Rightarrow> bool"
  for abi :: bpf_abi and buf :: "OCTET list" and n :: nat where
  packed_end: "n \<le> p \<Longrightarrow> packed abi buf n p"
| packed_record:
    "p < n \<Longrightarrow> bh_hdrlen abi buf p = Inr h \<Longrightarrow> bh_caplen abi buf p = Inr c \<Longrightarrow>
     bh_hdrlen_at abi + 2 \<le> unat h \<Longrightarrow> bh_caplen_at abi + 4 \<le> unat h \<Longrightarrow>
     p + unat h + unat c \<le> n \<Longrightarrow>
     packed abi buf n (p + record_length abi h c) \<Longrightarrow> packed abi buf n p"

code_pred packed .

text \<open>
  Every frame handed to the sink ends at or before offset \<open>n\<close>; every octet that
  parsing the header at \<open>p\<close> loads is below offset \<open>n\<close>.
\<close>

definition frames_within :: "nat \<Rightarrow> walk_state \<Rightarrow> bool" where
  "frames_within n s = list_all (\<lambda>(off, len). off + len \<le> n) (frames s)"

definition header_within :: "bpf_abi \<Rightarrow> nat \<Rightarrow> nat \<Rightarrow> bool" where
  "header_within abi n p = list_all (\<lambda>off. off < n) (hdrlen_octets abi p @ caplen_octets abi p)"

section \<open>Properties\<close>

subsection \<open>Word alignment\<close>

lemma wordAlign_multiple: "unit dvd wordAlign unit x"
  by (simp add: wordAlign_def)

lemma wordAlign_fix: "0 < unit \<Longrightarrow> unit dvd x \<Longrightarrow> wordAlign unit x = x"
proof -
  assume u: "0 < unit" and d: "unit dvd x"
  then obtain q where x: "x = q * unit" by (auto simp: dvd_def)
  have "(q * unit + (unit - 1)) div unit = q + (unit - 1) div unit"
    using u by (simp only: div_mult_self3)
  moreover have "(unit - 1) div unit = 0" using u by simp
  ultimately show ?thesis using x by (simp only: wordAlign_def add_0_right)
qed

lemma wordAlign_ge: "0 < unit \<Longrightarrow> x \<le> wordAlign unit x"
proof -
  assume u: "0 < unit"
  define y where "y = x + (unit - 1)"
  have "y = (y div unit) * unit + y mod unit" by (simp only: div_mult_mod_eq)
  moreover have "y mod unit < unit" using u by (rule mod_less_divisor)
  ultimately have "x \<le> (y div unit) * unit" unfolding y_def by linarith
  then show ?thesis by (simp only: wordAlign_def y_def)
qed

lemma wordAlign_less: "0 < unit \<Longrightarrow> wordAlign unit x < x + unit"
proof -
  assume u: "0 < unit"
  define y where "y = x + (unit - 1)"
  have "(y div unit) * unit \<le> y" by (rule div_times_less_eq_dividend)
  then have "(y div unit) * unit < x + unit" using u unfolding y_def by linarith
  then show ?thesis by (simp only: wordAlign_def y_def)
qed

text \<open>
  Claim C3. For a positive alignment unit and every \<open>x\<close>, aligning is idempotent and
  \<open>x \<le> wordAlign x < x + unit\<close>; with a unit of 8, 18 aligns to 24 and 24 to itself.
\<close>

theorem wordAlign_idempotent_monotonic:
  "0 < unit \<Longrightarrow>
     wordAlign unit (wordAlign unit x) = wordAlign unit x \<and>
     x \<le> wordAlign unit x \<and> wordAlign unit x < x + unit \<and>
     wordAlign 8 18 = 24 \<and> wordAlign 8 24 = 24"
proof -
  assume u: "0 < unit"
  have "wordAlign unit (wordAlign unit x) = wordAlign unit x"
    using u wordAlign_multiple by (rule wordAlign_fix)
  moreover have "wordAlign 8 18 = 24" "wordAlign 8 24 = 24"
    by (simp_all add: wordAlign_def)
  ultimately show ?thesis
    using wordAlign_ge [OF u] wordAlign_less [OF u] by blast
qed

theorem wordAlign_idempotent_monotonic_witness:
  "wordAlign 8 (wordAlign 8 18) = wordAlign 8 18 \<and>
   18 \<le> wordAlign 8 18 \<and> wordAlign 8 18 < 18 + 8"
  using wordAlign_idempotent_monotonic [of 8 18] by simp

subsection \<open>Opening the device\<close>

lemma decimal_length: "n < 100 \<Longrightarrow> length (decimal n) \<le> 2"
proof -
  assume n: "n < 100"
  show ?thesis
  proof (cases "n < 10")
    case True
    then show ?thesis by (subst decimal.simps) simp
  next
    case False
    with n have "n div 10 < 10" by simp
    then have "decimal (n div 10) = [digit (n div 10)]" by (subst decimal.simps) simp
    with False show ?thesis by (subst decimal.simps) simp
  qed
qed

lemma sprintf_path_fits: "n < 100 \<Longrightarrow> sprintf_path n = Some (bpf_path n)"
  using decimal_length [of n] by (simp add: sprintf_path_def bpf_path_def)

lemma open_loop_failure_step:
  assumes "k < N" "k < 100" "sys_open sys (bpf_path k) = Fails e" "e \<noteq> EACCES"
  shows "open_loop sys N (after_failures err eno k) =
         open_loop sys N (after_failures (err(k := e)) eno (Suc k))"
  using assms
  by (subst open_loop.simps)
     (simp add: after_failures_def sprintf_path_fits return_value_def errno_after_def)

lemma open_loop_skips:
  "k \<le> N \<Longrightarrow> k \<le> 100 \<Longrightarrow>
   \<forall>m<k. sys_open sys (bpf_path m) = Fails (err m) \<and> err m \<noteq> EACCES \<Longrightarrow>
   open_loop sys N (after_failures err eno 0) = open_loop sys N (after_failures err eno k)"
proof (induction k)
  case 0
  show ?case by simp
next
  case (Suc k)
  have "open_loop sys N (after_failures err eno 0) =
        open_loop sys N (after_failures err eno k)"
    using Suc by simp
  also have "\<dots> = open_loop sys N (after_failures (err(k := err k)) eno (Suc k))"
    using Suc.prems by (intro open_loop_failure_step) simp_all
  finally show ?case by simp
qed


lemma open_loop_permission:
  "open_loop sys N s = (f, s') \<Longrightarrow>
   \<exists>new. opened s' = opened s @ new \<and>
     (\<forall>j<length new. sys_open sys (new ! j) = Fails EACCES \<longrightarrow>
        f = Some PermissionDenied \<and> Suc j = length new)"
proof (induction sys N s arbitrary: f s' rule: open_loop.induct)
  case (1 sys N s)
  show ?case
  proof (cases "i s < N")
    case False
    with "1.prems" have "s' = s" by (subst (asm) open_loop.simps) simp
    then show ?thesis by simp
  next
    case lt: True
    show ?thesis
    proof (cases "sprintf_path (i s)")
      case None
      with lt "1.prems" have "s' = s" by (subst (asm) open_loop.simps) simp
      then show ?thesis by simp
    next
      case (Some path)
      define a where "a = sys_open sys path"
      define t where "t = s\<lparr>bpf := Some (return_value a), errno := errno_after (errno s) a,
                         buffer_char := path, opened := opened s @ [path]\<rparr>"
      have unfold: "open_loop sys N s =
          (if return_value a \<noteq> - 1 then (None, t)
           else if errno t = EACCES then (Some PermissionDenied, t)
           else open_loop sys N (t\<lparr>i := i s + 1\<rparr>))"
        using lt Some by (subst open_loop.simps) (simp add: a_def t_def Let_def)
      consider (break) "return_value a \<noteq> - 1"
        | (denied) "return_value a = - 1" "errno t = EACCES"
        | (continue) "return_value a = - 1" "errno t \<noteq> EACCES"
        by blast
      then show ?thesis
      proof cases
        case break
        with unfold "1.prems" have r: "f = None" "s' = t" by simp_all
        from break have "sys_open sys path \<noteq> Fails EACCES"
          by (auto simp: a_def return_value_def)
        with r show ?thesis by (simp add: t_def)
      next
        case denied
        with unfold "1.prems" have r: "f = Some PermissionDenied" "s' = t" by simp_all
        then show ?thesis by (simp add: t_def)
      next
        case continue
        with unfold "1.prems" have rec: "open_loop sys N (t\<lparr>i := i s + 1\<rparr>) = (f, s')"
          by simp
        have "\<exists>new. opened s' = opened (t\<lparr>i := i s + 1\<rparr>) @ new \<and>
           (\<forall>j<length new. sys_open sys (new ! j) = Fails EACCES \<longrightarrow>
              f = Some PermissionDenied \<and> Suc j = length new)"
          using continue rec
          by (intro "1.IH" [OF lt Some a_def t_def]) simp_all
        then obtain new where new: "opened s' = opened t @ new"
          "\<forall>j<length new. sys_open sys (new ! j) = Fails EACCES \<longrightarrow>
              f = Some PermissionDenied \<and> Suc j = length new"
          by auto
        from continue have nd: "sys_open sys path \<noteq> Fails EACCES"
          by (auto simp: a_def t_def errno_after_def)
        have "opened s' = opened s @ (path # new)" using new(1) by (simp add: t_def)
        moreover have "\<forall>j<length (path # new). sys_open sys ((path # new) ! j) = Fails EACCES \<longrightarrow>
              f = Some PermissionDenied \<and> Suc j = length (path # new)"
        proof (intro allI impI)
          fix j assume j: "j < length (path # new)"
            and e: "sys_open sys ((path # new) ! j) = Fails EACCES"
          show "f = Some PermissionDenied \<and> Suc j = length (path # new)"
          proof (cases j)
            case 0
            with e nd show ?thesis by simp
          next
            case (Suc j')
            with j e new(2) show ?thesis by simp
          qed
        qed
        ultimately show ?thesis by blast
      qed
    qed
  qed
qed


text \<open>
  Claim C4. Whenever an \<^verbatim>\<open>open\<close> that \<^verbatim>\<open>initializeDevice\<close> attempted failed with
  \<^verbatim>\<open>EACCES\<close>, the function ended with \<open>PermissionDenied\<close> and that attempt was the
  last one: no further path was opened.
\<close>

theorem permission_denied_short_circuit:
  assumes "initializeDevice sys N interface_name eno = (tr, r)"
    and "j < length tr"
    and "sys_open sys (tr ! j) = Fails EACCES"
  shows "r = Inl PermissionDenied \<and> Suc j = length tr"
proof -
  obtain f s where ol: "open_loop sys N
      \<lparr>i = 0, bpf = None, errno = eno, buffer_char = [], opened = []\<rparr> = (f, s)"
    by (cases "open_loop sys N
      \<lparr>i = 0, bpf = None, errno = eno, buffer_char = [], opened = []\<rparr>")
  from open_loop_permission [OF ol] have inv:
    "\<forall>j<length (opened s). sys_open sys (opened s ! j) = Fails EACCES \<longrightarrow>
        f = Some PermissionDenied \<and> Suc j = length (opened s)"
    by simp
  have tr: "tr = opened s"
    using assms(1) ol
    by (auto simp: initializeDevice_def open_device_def split: option.splits if_splits)
  with inv assms(2,3) have f: "f = Some PermissionDenied" and l: "Suc j = length tr"
    by simp_all
  from f assms(1) ol have "r = Inl PermissionDenied"
    by (simp add: initializeDevice_def open_device_def)
  with l show ?thesis by simp
qed

theorem permission_denied_short_circuit_witness:
  "initializeDevice denied_at_1 4 ''en0'' 0 =
     ([''/dev/bpf0'', ''/dev/bpf1''], Inl PermissionDenied) \<and>
   sys_open denied_at_1 ([''/dev/bpf0'', ''/dev/bpf1''] ! 1) = Fails EACCES \<and>
   (Inl PermissionDenied :: init_failure + int \<times> int) = Inl PermissionDenied \<and>
   Suc 1 = length [''/dev/bpf0'', ''/dev/bpf1'']"
proof -
  have h1: "initializeDevice denied_at_1 4 ''en0'' 0 =
     ([''/dev/bpf0'', ''/dev/bpf1''], Inl PermissionDenied)" by code_simp
  have h2: "1 < length [''/dev/bpf0'', ''/dev/bpf1'']" by simp
  have h3: "sys_open denied_at_1 ([''/dev/bpf0'', ''/dev/bpf1''] ! 1) = Fails EACCES"
    by (simp add: denied_at_1_def example_system_def)
  from permission_denied_short_circuit [OF h1 h2 h3] h1 h3 show ?thesis by blast
qed


lemma sprintf_path_Some: "sprintf_path k = Some path \<Longrightarrow> path = bpf_path k"
  by (simp add: sprintf_path_def split: if_splits)

lemma open_loop_ascending:
  "open_loop sys N s = (f, s') \<Longrightarrow>
   \<exists>k. i s \<le> k \<and> k \<le> max N (i s) \<and> opened s' = opened s @ map bpf_path [i s..<k]"
proof (induction sys N s arbitrary: f s' rule: open_loop.induct)
  case (1 sys N s)
  show ?case
  proof (cases "i s < N")
    case False
    with "1.prems" have "s' = s" by (subst (asm) open_loop.simps) simp
    then have "i s \<le> i s \<and> i s \<le> max N (i s) \<and> opened s' = opened s @ map bpf_path [i s..<i s]"
      by simp
    then show ?thesis by blast
  next
    case lt: True
    show ?thesis
    proof (cases "sprintf_path (i s)")
      case None
      with lt "1.prems" have "s' = s" by (subst (asm) open_loop.simps) simp
      then have "i s \<le> i s \<and> i s \<le> max N (i s) \<and> opened s' = opened s @ map bpf_path [i s..<i s]"
        by simp
      then show ?thesis by blast
    next
      case (Some path)
      then have path: "path = bpf_path (i s)" by (rule sprintf_path_Some)
      define a where "a = sys_open sys path"
      define t where "t = s\<lparr>bpf := Some (return_value a), errno := errno_after (errno s) a,
                         buffer_char := path, opened := opened s @ [path]\<rparr>"
      have unfold: "open_loop sys N s =
          (if return_value a \<noteq> - 1 then (None, t)
           else if errno t = EACCES then (Some PermissionDenied, t)
           else open_loop sys N (t\<lparr>i := i s + 1\<rparr>))"
        using lt Some by (subst open_loop.simps) (simp add: a_def t_def Let_def)
      have one: "[i s..<Suc (i s)] = [i s]" by simp
      show ?thesis
      proof (cases "return_value a \<noteq> - 1 \<or> errno t = EACCES")
        case True
        with unfold "1.prems" have "s' = t" by (auto split: if_splits)
        then have "i s \<le> Suc (i s) \<and> Suc (i s) \<le> max N (i s) \<and>
            opened s' = opened s @ map bpf_path [i s..<Suc (i s)]"
          using lt path by (simp add: t_def)
        then show ?thesis by blast
      next
        case False
        then have c: "\<not> return_value a \<noteq> - 1" "errno t \<noteq> EACCES" by simp_all
        with unfold "1.prems" have rec: "open_loop sys N (t\<lparr>i := i s + 1\<rparr>) = (f, s')"
          by simp
        from "1.IH" [OF lt Some a_def t_def c rec]
        obtain k where k: "Suc (i s) \<le> k" "k \<le> max N (Suc (i s))"
          "opened s' = opened s @ [path] @ map bpf_path [Suc (i s)..<k]"
          by (auto simp: t_def)
        have "[i s..<k] = i s # [Suc (i s)..<k]" using k(1) by (simp add: upt_conv_Cons)
        with k path lt have "i s \<le> k \<and> k \<le> max N (i s) \<and>
            opened s' = opened s @ map bpf_path [i s..<k]"
          by simp
        then show ?thesis by blast
      qed
    qed
  qed
qed

lemma initializeDevice_ascending:
  "\<exists>k. k \<le> N \<and> fst (initializeDevice sys N interface_name eno) = map bpf_path [0..<k]"
proof -
  obtain f s where ol: "open_loop sys N
      \<lparr>i = 0, bpf = None, errno = eno, buffer_char = [], opened = []\<rparr> = (f, s)"
    by (cases "open_loop sys N
      \<lparr>i = 0, bpf = None, errno = eno, buffer_char = [], opened = []\<rparr>")
  from open_loop_ascending [OF ol] obtain k where k: "k \<le> N" "opened s = map bpf_path [0..<k]"
    by auto
  have "fst (initializeDevice sys N interface_name eno) = opened s"
    using ol by (simp add: initializeDevice_def open_device_def split: option.splits)
  with k show ?thesis by auto
qed

lemma probing_first_success:
  assumes "k < N" "k < 100"
    and "\<forall>m<k. sys_open sys (bpf_path m) = Fails (err m) \<and> err m \<noteq> EACCES"
    and "sys_open sys (bpf_path k) = Gives d" "d \<noteq> - 1"
  shows "open_device sys N eno =
           ((after_failures err eno k)
              \<lparr>bpf := Some d, buffer_char := bpf_path k, opened := map bpf_path [0..<Suc k]\<rparr>,
            Inr d)"
proof -
  have "open_loop sys N (after_failures err eno 0) =
        open_loop sys N (after_failures err eno k)"
    using assms(1-3) by (intro open_loop_skips) simp_all
  also have "\<dots> = (None, (after_failures err eno k)
              \<lparr>bpf := Some d, buffer_char := bpf_path k, opened := map bpf_path [0..<Suc k]\<rparr>)"
    using assms
    by (subst open_loop.simps)
       (simp add: after_failures_def sprintf_path_fits return_value_def errno_after_def)
  finally show ?thesis
    using assms(5) by (simp add: open_device_def after_failures_def)
qed

lemma probing_exhausted:
  assumes "0 < N" "N \<le> 100"
    and "\<forall>m<N. sys_open sys (bpf_path m) = Fails (err m) \<and> err m \<noteq> EACCES"
  shows "open_device sys N eno =
           (after_failures err eno N, Inl (DeviceUnavailable N (err (N - 1))))"
proof -
  have "open_loop sys N (after_failures err eno 0) =
        open_loop sys N (after_failures err eno N)"
    using assms by (intro open_loop_skips) simp_all
  also have "\<dots> = (None, after_failures err eno N)"
    by (subst open_loop.simps) (simp add: after_failures_def)
  finally show ?thesis
    using assms(1) by (simp add: open_device_def after_failures_def)
qed

text \<open>
  Claim C5. The paths opened are always those of the indices 0 to some \<open>j - 1\<close> with
  \<open>j\<close> at most \<open>N\<close>, in ascending order. If the opens of the
  indices below \<open>k\<close> fail (with errors other than \<^verbatim>\<open>EACCES\<close>) and that of \<open>k\<close>
  succeeds, exactly the paths of 0 to \<open>k\<close> are opened, in order, the descriptor is the
  one of index \<open>k\<close> and \<^verbatim>\<open>buffer_char\<close> holds its path; the function goes on to
  configure that descriptor. If all \<open>N\<close> opens fail so, all \<open>N\<close> paths are opened and the
  function ends with \<open>DeviceUnavailable\<close>, carrying the error of the last attempt. The
  bound 100 is what \<^verbatim>\<open>buffer_char[11]\<close> has room for.
\<close>

theorem device_probing:
  "(\<exists>j. j \<le> N \<and> fst (initializeDevice sys N interface_name eno) = map bpf_path [0..<j]) \<and>
   (k < N \<and> k < 100 \<and>
    (\<forall>m<k. sys_open sys (bpf_path m) = Fails (err m) \<and> err m \<noteq> EACCES) \<and>
    sys_open sys (bpf_path k) = Gives d \<and> d \<noteq> - 1 \<longrightarrow>
      snd (open_device sys N eno) = Inr d \<and>
      buffer_char (fst (open_device sys N eno)) = bpf_path k \<and>
      initializeDevice sys N interface_name eno =
        (map bpf_path [0..<Suc k],
         configure_device sys interface_name (if k = 0 then eno else err (k - 1)) d)) \<and>
   (0 < N \<and> N \<le> 100 \<and>
    (\<forall>m<N. sys_open sys (bpf_path m) = Fails (err m) \<and> err m \<noteq> EACCES) \<longrightarrow>
      initializeDevice sys N interface_name eno =
        (map bpf_path [0..<N], Inl (DeviceUnavailable N (err (N - 1)))))"
proof (intro conjI impI)
  show "\<exists>j. j \<le> N \<and> fst (initializeDevice sys N interface_name eno) = map bpf_path [0..<j]"
    by (rule initializeDevice_ascending)
next
  assume h: "k < N \<and> k < 100 \<and>
    (\<forall>m<k. sys_open sys (bpf_path m) = Fails (err m) \<and> err m \<noteq> EACCES) \<and>
    sys_open sys (bpf_path k) = Gives d \<and> d \<noteq> - 1"
  then have od: "open_device sys N eno =
           ((after_failures err eno k)
              \<lparr>bpf := Some d, buffer_char := bpf_path k, opened := map bpf_path [0..<Suc k]\<rparr>,
            Inr d)"
    by (intro probing_first_success) simp_all
  show "snd (open_device sys N eno) = Inr d" by (simp add: od)
  show "buffer_char (fst (open_device sys N eno)) = bpf_path k" by (simp add: od)
  show "initializeDevice sys N interface_name eno =
        (map bpf_path [0..<Suc k],
         configure_device sys interface_name (if k = 0 then eno else err (k - 1)) d)"
    by (simp add: initializeDevice_def od after_failures_def)
next
  assume h: "0 < N \<and> N \<le> 100 \<and>
    (\<forall>m<N. sys_open sys (bpf_path m) = Fails (err m) \<and> err m \<noteq> EACCES)"
  then have od: "open_device sys N eno =
           (after_failures err eno N, Inl (DeviceUnavailable N (err (N - 1))))"
    by (intro probing_exhausted) simp_all
  show "initializeDevice sys N interface_name eno =
        (map bpf_path [0..<N], Inl (DeviceUnavailable N (err (N - 1))))"
    by (simp add: initializeDevice_def od after_failures_def)
qed

lemma bpf_path_examples:
  "bpf_path 0 = ''/dev/bpf0''" "bpf_path 1 = ''/dev/bpf1''" "bpf_path 2 = ''/dev/bpf2''"
  "bpf_path (Suc 0) = ''/dev/bpf1''" "bpf_path (Suc (Suc 0)) = ''/dev/bpf2''"
  by (simp_all add: bpf_path_def decimal.simps digit_def)

theorem device_probing_witness:
  "initializeDevice only_2_opens 4 ''en0'' 0 =
     ([''/dev/bpf0'', ''/dev/bpf1'', ''/dev/bpf2''], Inr (3, 4096)) \<and>
   snd (open_device only_2_opens 4 0) = Inr 3 \<and>
   buffer_char (fst (open_device only_2_opens 4 0)) = ''/dev/bpf2'' \<and>
   initializeDevice none_opens 3 ''en0'' 0 =
     ([''/dev/bpf0'', ''/dev/bpf1'', ''/dev/bpf2''], Inl (DeviceUnavailable 3 16))"
proof -
  have a: "\<forall>m<2. sys_open only_2_opens (bpf_path m) = Fails ((\<lambda>m. 2) m) \<and>
                 (\<lambda>m. 2) m \<noteq> EACCES"
  proof (intro allI impI)
    fix m :: nat assume "m < 2"
    then have "m = 0 \<or> m = 1" by arith
    then show "sys_open only_2_opens (bpf_path m) = Fails ((\<lambda>m. 2) m) \<and>
                 (\<lambda>m. 2) m \<noteq> EACCES"
      by (auto simp: only_2_opens_def example_system_def EACCES_def bpf_path_examples)
  qed
  have b: "sys_open only_2_opens (bpf_path 2) = Gives 3"
    by (simp add: only_2_opens_def example_system_def bpf_path_examples)
  have c: "\<forall>m<3. sys_open none_opens (bpf_path m) = Fails ((\<lambda>m. if m = 2 then 16 else 2) m) \<and>
                 (\<lambda>m. if m = 2 then 16 else 2) m \<noteq> EACCES"
  proof (intro allI impI)
    fix m :: nat assume "m < 3"
    then have "m = 0 \<or> m = 1 \<or> m = 2" by arith
    then show "sys_open none_opens (bpf_path m) = Fails ((\<lambda>m. if m = 2 then 16 else 2) m) \<and>
                 (\<lambda>m. if m = 2 then 16 else 2) m \<noteq> EACCES"
      by (auto simp: none_opens_def example_system_def EACCES_def bpf_path_examples)
  qed
  have cfg: "configure_device only_2_opens ''en0'' 2 3 = Inr (3, 4096)"
    by (simp add: configure_device_def only_2_opens_def example_system_def IFNAMSIZ_def
          return_value_def)
  have upt3: "map bpf_path [0..<Suc 2] = [''/dev/bpf0'', ''/dev/bpf1'', ''/dev/bpf2'']"
    "map bpf_path [0..<3] = [''/dev/bpf0'', ''/dev/bpf1'', ''/dev/bpf2'']"
    by (simp_all add: upt_rec bpf_path_examples)
  from device_probing [where k = 2 and N = 4 and sys = only_2_opens and err = "\<lambda>m. 2"
      and d = 3 and eno = 0 and interface_name = "''en0''"] a b
  have "snd (open_device only_2_opens 4 0) = Inr 3 \<and>
      buffer_char (fst (open_device only_2_opens 4 0)) = bpf_path 2 \<and>
      initializeDevice only_2_opens 4 ''en0'' 0 =
        (map bpf_path [0..<Suc 2], configure_device only_2_opens ''en0'' 2 3)"
    by simp
  moreover from device_probing [where N = 3 and sys = none_opens
      and err = "\<lambda>m. if m = 2 then 16 else 2" and eno = 0 and interface_name = "''en0''"] c
  have "initializeDevice none_opens 3 ''en0'' 0 =
        (map bpf_path [0..<3], Inl (DeviceUnavailable 3 16))"
    by simp
  ultimately show ?thesis
    by (simp only: cfg upt3 bpf_path_examples)
qed

subsection \<open>The signal handler\<close>

text \<open>
  Claim C8. With the handler installed, a delivery of \<^verbatim>\<open>SIGINT\<close> leaves the flag false
  and the handler installed, and so does a second delivery after it, whether or not
  the system resets the disposition when it delivers.
\<close>

theorem interrupt_delivery_rearms:
  "sigint_disposition p = CallsSignalHandler \<Longrightarrow>
     deliver_SIGINT r1 p = Some \<lparr>running = False, sigint_disposition = CallsSignalHandler\<rparr> \<and>
     deliver_SIGINT r2 \<lparr>running = False, sigint_disposition = CallsSignalHandler\<rparr> =
       Some \<lparr>running = False, sigint_disposition = CallsSignalHandler\<rparr>"
  by (simp add: deliver_SIGINT_def signalHandler_def signal_SIGINT_def)

theorem interrupt_delivery_rearms_witness:
  "sigint_disposition process_start = CallsSignalHandler \<and>
   deliver_SIGINT True process_start =
     Some \<lparr>running = False, sigint_disposition = CallsSignalHandler\<rparr> \<and>
   deliver_SIGINT True \<lparr>running = False, sigint_disposition = CallsSignalHandler\<rparr> =
     Some \<lparr>running = False, sigint_disposition = CallsSignalHandler\<rparr>"
proof -
  have h: "sigint_disposition process_start = CallsSignalHandler"
    by (simp add: process_start_def signal_SIGINT_def)
  from interrupt_delivery_rearms [OF h, of True True] h show ?thesis by simp
qed

text \<open>
  Claim C10. A run of the handler with a signal number other than \<^verbatim>\<open>SIGINT\<close> leaves
  the flag as it was and installs the handler again; a run that turns the flag from
  true to false is a run with \<^verbatim>\<open>SIGINT\<close>.
\<close>

theorem handler_other_signals:
  "(sig_num \<noteq> SIGINT \<longrightarrow>
      running (signalHandler sig_num p) = running p \<and>
      sigint_disposition (signalHandler sig_num p) = CallsSignalHandler) \<and>
   (running p \<and> \<not> running (signalHandler sig_num p) \<longrightarrow> sig_num = SIGINT)"
  by (auto simp: signalHandler_def signal_SIGINT_def Let_def)

theorem handler_other_signals_witness:
  "15 \<noteq> SIGINT \<and>
   running (signalHandler 15 process_start) = running process_start \<and>
   sigint_disposition (signalHandler 15 process_start) = CallsSignalHandler \<and>
   running process_start \<and> \<not> running (signalHandler SIGINT process_start)"
proof -
  have h: "15 \<noteq> SIGINT" by (simp add: SIGINT_def)
  have r: "running process_start" "\<not> running (signalHandler SIGINT process_start)"
    by (simp_all add: process_start_def signal_SIGINT_def signalHandler_def)
  from handler_other_signals [of 15 process_start]
    handler_other_signals [of SIGINT process_start] h r
  show ?thesis by simp
qed

subsection \<open>The buffer walk\<close>

lemma walk_stuck_aux:
  assumes "walk abi buf n s = Some y"
  shows "ptr s < n \<longrightarrow>
         (\<forall>h c. bh_hdrlen abi buf (ptr s) = Inr h \<longrightarrow> bh_caplen abi buf (ptr s) = Inr c \<longrightarrow>
                record_length abi h c \<noteq> 0)"
  using assms
proof (induct rule: walk.raw_induct [rotated 1, consumes 1])
  case (1 w abi buf n s y)
  note IH = "1"(1) and eq = "1"(2)
  show ?case
  proof (intro impI allI notI)
    fix h c
    assume lt: "ptr s < n" and h: "bh_hdrlen abi buf (ptr s) = Inr h"
      and c: "bh_caplen abi buf (ptr s) = Inr c" and z: "record_length abi h c = 0"
    let ?s' = "\<lparr>ptr = ptr s, frames = frames s @ [(ptr s + unat h, unat c)]\<rparr>"
    from lt h c z have "walk_step abi buf s = Inr ?s'" by (simp add: walk_step_def)
    with lt eq have "w abi buf n ?s' = Some y" by simp
    from IH [OF this] lt h c z show False by simp
  qed
qed

lemma walk_stuck:
  "ptr s < n \<Longrightarrow> bh_hdrlen abi buf (ptr s) = Inr h \<Longrightarrow> bh_caplen abi buf (ptr s) = Inr c \<Longrightarrow>
   record_length abi h c = 0 \<Longrightarrow> walk abi buf n s = None"
  using walk_stuck_aux [of abi buf n s] by (cases "walk abi buf n s") auto

lemma walk_upto_walk:
  "walk_upto k abi buf n s = Inr t \<Longrightarrow> walk abi buf n s = walk abi buf n t"
proof (induction k arbitrary: s)
  case 0
  then show ?case by simp
next
  case (Suc k)
  show ?case
  proof (cases "ptr s < n")
    case False
    with Suc.prems show ?thesis by simp
  next
    case True
    with Suc.prems obtain s' where s': "walk_step abi buf s = Inr s'"
      and rest: "walk_upto k abi buf n s' = Inr t"
      by (auto split: sum.splits)
    from True s' have "walk abi buf n s = walk abi buf n s'"
      by (subst walk.simps) simp
    with Suc.IH [OF rest] show ?thesis by simp
  qed
qed

lemma wordAlign_0: "wordAlign unit 0 = 0"
  by (cases "unit = 0") (simp_all add: wordAlign_def)

lemma example_lengths:
  "record_length example_abi 18 46 = 64" "record_length example_abi 18 10 = 32"
  by (simp_all add: record_length_def wordAlign_def example_abi_def)

lemma two_records_fields:
  "bh_hdrlen example_abi (buffer_after_read 128 (ReadData two_records)) 0 = Inr 18"
  "bh_caplen example_abi (buffer_after_read 128 (ReadData two_records)) 0 = Inr 46"
  "bh_hdrlen example_abi (buffer_after_read 128 (ReadData two_records)) 64 = Inr 18"
  "bh_caplen example_abi (buffer_after_read 128 (ReadData two_records)) 64 = Inr 10"
  by code_simp+

lemma zero_read_fields:
  "bh_hdrlen example_abi (buffer_after_read 128 (ReadData (replicate 32 0))) 0 = Inr 0"
  "bh_caplen example_abi (buffer_after_read 128 (ReadData (replicate 32 0))) 0 = Inr 0"
  by code_simp+

lemma two_records_upto_1:
  "walk_upto 1 example_abi (buffer_after_read 128 (ReadData two_records)) 96 walk_start =
     Inr \<lparr>ptr = 64, frames = [(18, 46)]\<rparr>"
  by code_simp

lemma two_records_walk_example:
  "walk example_abi (buffer_after_read 128 (ReadData two_records)) 96 walk_start =
     Some (Inr \<lparr>ptr = 96, frames = [(18, 46), (82, 10)]\<rparr>)"
  by code_simp

text \<open>
  Claim C1. When the header at offset 0 gives header length 18 and captured length 46,
  aligned to 64 octets, and the header at offset 64 gives header length 18 and captured
  length 10, aligned to 32 octets, the walk over a read of 96 octets hands exactly two
  frames to the sink, at offsets 18 and 82 with captured lengths 46 and 10, and ends
  with the cursor at 96. An alignment unit of 8 gives these aligned lengths.
\<close>

theorem two_records_walk:
  assumes "bh_hdrlen abi buf 0 = Inr 18" "bh_caplen abi buf 0 = Inr 46"
    and "record_length abi 18 46 = 64"
    and "bh_hdrlen abi buf 64 = Inr 18" "bh_caplen abi buf 64 = Inr 10"
    and "record_length abi 18 10 = 32"
  shows "walk abi buf 96 walk_start = Some (Inr \<lparr>ptr = 96, frames = [(18, 46), (82, 10)]\<rparr>)"
proof -
  note l = assms(3,6)
  have "walk abi buf 96 walk_start = walk abi buf 96 \<lparr>ptr = 64, frames = [(18, 46)]\<rparr>"
    using assms l by (subst walk.simps) (simp add: walk_start_def walk_step_def)
  also have "\<dots> = walk abi buf 96 \<lparr>ptr = 96, frames = [(18, 46), (82, 10)]\<rparr>"
    using assms l by (subst walk.simps) (simp add: walk_step_def)
  also have "\<dots> = Some (Inr \<lparr>ptr = 96, frames = [(18, 46), (82, 10)]\<rparr>)"
    by (subst walk.simps) simp
  finally show ?thesis .
qed

theorem two_records_walk_witness:
  "read_return 128 (ReadData two_records) = 96 \<and>
   BPF_ALIGNMENT example_abi = 8 \<and>
   bh_hdrlen example_abi (buffer_after_read 128 (ReadData two_records)) 0 = Inr 18 \<and>
   bh_caplen example_abi (buffer_after_read 128 (ReadData two_records)) 0 = Inr 46 \<and>
   record_length example_abi 18 46 = 64 \<and>
   bh_hdrlen example_abi (buffer_after_read 128 (ReadData two_records)) 64 = Inr 18 \<and>
   bh_caplen example_abi (buffer_after_read 128 (ReadData two_records)) 64 = Inr 10 \<and>
   record_length example_abi 18 10 = 32 \<and>
   walk example_abi (buffer_after_read 128 (ReadData two_records)) 96 walk_start =
     Some (Inr \<lparr>ptr = 96, frames = [(18, 46), (82, 10)]\<rparr>)"
proof -
  have a: "BPF_ALIGNMENT example_abi = 8" by (simp add: example_abi_def)
  have r: "read_return 128 (ReadData two_records) = 96"
    by (simp add: read_return_def two_records_def record_A_def record_B_def unpadded_B_def)
  from two_records_walk [OF two_records_fields(1,2) example_lengths(1)
      two_records_fields(3,4) example_lengths(2)]
    a r two_records_fields example_lengths
  show ?thesis by simp
qed

text \<open>
  Claim C9. A walk that terminates has met only records with a positive aligned
  length: at every state it reaches where a record is parsed, the length the cursor
  advances by is positive. Where the header length and the captured length of the
  record under the cursor are both 0, the loop body leaves the cursor where it is and
  the walk never terminates.
\<close>

theorem walk_termination_needs_progress:
  "(walk abi buf n s = Some r \<and> walk_upto k abi buf n s = Inr t \<and> ptr t < n \<and>
    bh_hdrlen abi buf (ptr t) = Inr h \<and> bh_caplen abi buf (ptr t) = Inr c \<longrightarrow>
      0 < record_length abi h c) \<and>
   (ptr s < n \<and> bh_hdrlen abi buf (ptr s) = Inr 0 \<and> bh_caplen abi buf (ptr s) = Inr 0 \<longrightarrow>
      walk_step abi buf s = Inr \<lparr>ptr = ptr s, frames = frames s @ [(ptr s, 0)]\<rparr> \<and>
      walk abi buf n s = None)"
proof (intro conjI impI)
  assume a: "walk abi buf n s = Some r \<and> walk_upto k abi buf n s = Inr t \<and> ptr t < n \<and>
    bh_hdrlen abi buf (ptr t) = Inr h \<and> bh_caplen abi buf (ptr t) = Inr c"
  then have "walk abi buf n t = Some r" using walk_upto_walk [of k abi buf n s t] by simp
  with a walk_stuck [of t n abi buf h c] show "0 < record_length abi h c"
    by (cases "record_length abi h c = 0") simp_all
next
  assume a: "ptr s < n \<and> bh_hdrlen abi buf (ptr s) = Inr 0 \<and> bh_caplen abi buf (ptr s) = Inr 0"
  have z: "record_length abi 0 0 = 0" by (simp add: record_length_def wordAlign_0)
  from a z show "walk_step abi buf s = Inr \<lparr>ptr = ptr s, frames = frames s @ [(ptr s, 0)]\<rparr>"
    by (simp add: walk_step_def)
  from a z show "walk abi buf n s = None" by (intro walk_stuck [where h = 0 and c = 0]) simp_all
qed

theorem walk_termination_needs_progress_witness:
  "walk example_abi (buffer_after_read 128 (ReadData two_records)) 96 walk_start =
     Some (Inr \<lparr>ptr = 96, frames = [(18, 46), (82, 10)]\<rparr>) \<and>
   walk_upto 1 example_abi (buffer_after_read 128 (ReadData two_records)) 96 walk_start =
     Inr \<lparr>ptr = 64, frames = [(18, 46)]\<rparr> \<and>
   0 < record_length example_abi 18 10 \<and>
   bh_hdrlen example_abi (buffer_after_read 128 (ReadData (replicate 32 0))) 0 = Inr 0 \<and>
   bh_caplen example_abi (buffer_after_read 128 (ReadData (replicate 32 0))) 0 = Inr 0 \<and>
   walk_step example_abi (buffer_after_read 128 (ReadData (replicate 32 0))) walk_start =
     Inr \<lparr>ptr = 0, frames = [(0, 0)]\<rparr> \<and>
   walk example_abi (buffer_after_read 128 (ReadData (replicate 32 0))) 32 walk_start = None"
proof -
  have p: "ptr walk_start = 0" "frames walk_start = []" by (simp_all add: walk_start_def)
  have "0 < record_length example_abi 18 10"
    using walk_termination_needs_progress
      [where abi = example_abi and buf = "buffer_after_read 128 (ReadData two_records)"
         and n = 96 and s = walk_start and k = 1 and t = "\<lparr>ptr = 64, frames = [(18, 46)]\<rparr>"
         and h = 18 and c = 10
         and r = "Inr \<lparr>ptr = 96, frames = [(18, 46), (82, 10)]\<rparr>"]
      two_records_walk_example two_records_upto_1 two_records_fields
    by simp
  moreover have
    "walk_step example_abi (buffer_after_read 128 (ReadData (replicate 32 0))) walk_start =
       Inr \<lparr>ptr = 0, frames = [(0, 0)]\<rparr> \<and>
     walk example_abi (buffer_after_read 128 (ReadData (replicate 32 0))) 32 walk_start = None"
    using walk_termination_needs_progress
      [where abi = example_abi and buf = "buffer_after_read 128 (ReadData (replicate 32 0))"
         and n = 32 and s = walk_start]
      zero_read_fields p
    by simp
  ultimately show ?thesis
    using two_records_walk_example two_records_upto_1 zero_read_fields by simp
qed

lemma unat_ucast_16_32: "unat (ucast (h :: 16 word) :: 32 word) = unat h"
  by (simp add: unsigned_ucast_eq take_bit_nat_eq_self_iff)
     (rule less_trans [OF unsigned_less], simp)

lemma record_length_exact:
  assumes "unat h + unat c < 2 ^ 32"
  shows "record_length abi h c = wordAlign (BPF_ALIGNMENT abi) (unat h + unat c)"
proof -
  have "unat ((ucast h :: 32 word) + c) = unat (ucast h :: 32 word) + unat c"
    using assms unat_add_lem [of "ucast h :: 32 word" c] by (simp add: unat_ucast_16_32)
  then show ?thesis by (simp add: record_length_def unat_ucast_16_32)
qed

lemma packed_step:
  assumes "packed abi buf n (ptr s)" "ptr s < n" "0 < BPF_ALIGNMENT abi" "n < 2 ^ 31"
    and "frames_within n s"
  shows "\<exists>s'. walk_step abi buf s = Inr s' \<and> packed abi buf n (ptr s') \<and>
           ptr s < ptr s' \<and> ptr s' < n + BPF_ALIGNMENT abi \<and> frames_within n s' \<and>
           header_within abi n (ptr s)"
  using assms(1)
proof (cases rule: packed.cases)
  case packed_end
  with assms(2) show ?thesis by simp
next
  case (packed_record h c)
  have small: "unat h + unat c < 2 ^ 32"
    using packed_record(6) assms(4) by simp
  have len: "record_length abi h c = wordAlign (BPF_ALIGNMENT abi) (unat h + unat c)"
    using small by (rule record_length_exact)
  have ge: "unat h + unat c \<le> record_length abi h c"
    using assms(3) by (simp add: len wordAlign_ge)
  have lt: "record_length abi h c < unat h + unat c + BPF_ALIGNMENT abi"
    using assms(3) by (simp add: len wordAlign_less)
  let ?s' = "\<lparr>ptr = ptr s + record_length abi h c,
              frames = frames s @ [(ptr s + unat h, unat c)]\<rparr>"
  have "walk_step abi buf s = Inr ?s'"
    using packed_record(2,3) by (simp add: walk_step_def)
  moreover have "packed abi buf n (ptr ?s')" using packed_record(7) by simp
  moreover have "ptr s < ptr ?s'" using ge packed_record(4) by simp
  moreover have "ptr ?s' < n + BPF_ALIGNMENT abi" using lt packed_record(6) by simp
  moreover have "frames_within n ?s'"
    using assms(5) packed_record(6) by (simp add: frames_within_def)
  moreover have "header_within abi n (ptr s)"
    using packed_record(4,5,6)
    by (simp add: header_within_def hdrlen_octets_def caplen_octets_def)
  ultimately show ?thesis by blast
qed

lemma packed_walk:
  assumes "0 < BPF_ALIGNMENT abi" "n < 2 ^ 31"
  shows "packed abi buf n p \<Longrightarrow> ptr s = p \<Longrightarrow> p < n + BPF_ALIGNMENT abi \<Longrightarrow>
         frames_within n s \<Longrightarrow>
         \<exists>t. walk abi buf n s = Some (Inr t) \<and> n \<le> ptr t \<and>
             ptr t < n + BPF_ALIGNMENT abi \<and> frames_within n t"
proof (induction arbitrary: s rule: packed.induct)
  case (packed_end p)
  then have "walk abi buf n s = Some (Inr s)" by (subst walk.simps) simp
  with packed_end show ?case by simp
next
  case (packed_record p h c)
  note ps = packed_record.prems(1)
  have lt: "ptr s < n" using packed_record.hyps(1) ps by simp
  have pk: "packed abi buf n (ptr s)"
    using packed.packed_record [OF packed_record.hyps] ps by simp
  from packed_step [OF pk lt assms packed_record.prems(3)]
  obtain s' where s': "walk_step abi buf s = Inr s'" "ptr s' < n + BPF_ALIGNMENT abi"
      "frames_within n s'"
    by auto
  from s'(1) packed_record.hyps(2,3) ps have p': "ptr s' = p + record_length abi h c"
    by (auto simp: walk_step_def)
  have "walk abi buf n s = walk abi buf n s'"
    using s'(1) lt by (subst walk.simps) simp
  moreover have "p + record_length abi h c < n + BPF_ALIGNMENT abi"
    using s'(2) p' by simp
  ultimately show ?case
    using packed_record.IH [OF p' _ s'(3)] by simp
qed

lemma packed_walk_upto:
  assumes "0 < BPF_ALIGNMENT abi" "n < 2 ^ 31"
  shows "packed abi buf n (ptr s) \<Longrightarrow> ptr s < n + BPF_ALIGNMENT abi \<Longrightarrow> frames_within n s \<Longrightarrow>
         \<exists>u. walk_upto k abi buf n s = Inr u \<and> packed abi buf n (ptr u) \<and>
             ptr u < n + BPF_ALIGNMENT abi \<and> frames_within n u"
proof (induction k arbitrary: s)
  case 0
  then show ?case by simp
next
  case (Suc k)
  show ?case
  proof (cases "ptr s < n")
    case False
    with Suc.prems show ?thesis by simp
  next
    case True
    from packed_step [OF Suc.prems(1) True assms Suc.prems(3)]
    obtain s' where s': "walk_step abi buf s = Inr s'" "packed abi buf n (ptr s')"
      "ptr s' < n + BPF_ALIGNMENT abi" "frames_within n s'"
      by auto
    from Suc.IH [OF s'(2,3,4)] True s'(1) show ?thesis by simp
  qed
qed

lemma unpadded_fields:
  "bh_hdrlen example_abi (buffer_after_read 128 (ReadData (record_A @ unpadded_B))) 0 = Inr 18"
  "bh_caplen example_abi (buffer_after_read 128 (ReadData (record_A @ unpadded_B))) 0 = Inr 46"
  "bh_hdrlen example_abi (buffer_after_read 128 (ReadData (record_A @ unpadded_B))) 64 = Inr 18"
  "bh_caplen example_abi (buffer_after_read 128 (ReadData (record_A @ unpadded_B))) 64 = Inr 10"
  by code_simp+

lemma unpadded_packed:
  "packed example_abi (buffer_after_read 128 (ReadData (record_A @ unpadded_B))) 92 0"
proof -
  let ?buf = "buffer_after_read 128 (ReadData (record_A @ unpadded_B))"
  have "packed example_abi ?buf 92 96" by (rule packed_end) simp
  then have "packed example_abi ?buf 92 (64 + record_length example_abi 18 10)"
    by (simp add: example_lengths)
  then have "packed example_abi ?buf 92 64"
    using unpadded_fields(3,4)
    by - (rule packed_record [where h = 18 and c = 10], simp_all add: example_abi_def)
  then have "packed example_abi ?buf 92 (0 + record_length example_abi 18 46)"
    by (simp add: example_lengths)
  then show ?thesis
    using unpadded_fields(1,2)
    by - (rule packed_record [where h = 18 and c = 46], simp_all add: example_abi_def)
qed

lemma unpadded_runs:
  "walk example_abi (buffer_after_read 128 (ReadData (record_A @ unpadded_B))) 92 walk_start =
     Some (Inr \<lparr>ptr = 96, frames = [(18, 46), (82, 10)]\<rparr>)"
  "walk_upto 1 example_abi (buffer_after_read 128 (ReadData (record_A @ unpadded_B))) 92
     walk_start = Inr \<lparr>ptr = 64, frames = [(18, 46)]\<rparr>"
  by code_simp+

lemma trailing_six_fields:
  "bh_hdrlen example_abi (buffer_after_read 128 (ReadData trailing_six)) 64 = Inr 0"
  "bh_caplen example_abi (buffer_after_read 128 (ReadData trailing_six)) 64 = Inr 0"
  by code_simp+

lemma trailing_six_upto_1:
  "walk_upto 1 example_abi (buffer_after_read 128 (ReadData trailing_six)) 70 walk_start =
     Inr \<lparr>ptr = 64, frames = [(18, 46)]\<rparr>"
  by code_simp

text \<open>
  Claim C2, as the code has it. Over a read that is packed (every record the walk meets
  is complete within the octets read), the walk terminates with the cursor at or past
  the octets read and less than one alignment unit beyond them; at every step the
  cursor is below that bound, every frame handed to the sink lies within the octets
  read, and where a record is parsed every header octet loaded lies within them.
\<close>

theorem packed_walk_within_read:
  assumes "packed abi buf n 0" "0 < BPF_ALIGNMENT abi" "n < 2 ^ 31"
  shows "(\<exists>t. walk abi buf n walk_start = Some (Inr t) \<and> n \<le> ptr t \<and>
              ptr t < n + BPF_ALIGNMENT abi \<and> frames_within n t) \<and>
         (\<forall>k. \<exists>u. walk_upto k abi buf n walk_start = Inr u \<and>
              ptr u < n + BPF_ALIGNMENT abi \<and> frames_within n u \<and>
              (ptr u < n \<longrightarrow> header_within abi n (ptr u)))"
proof (intro conjI allI)
  have s0: "ptr walk_start = 0" "frames_within n walk_start"
    by (simp_all add: walk_start_def frames_within_def)
  show "\<exists>t. walk abi buf n walk_start = Some (Inr t) \<and> n \<le> ptr t \<and>
              ptr t < n + BPF_ALIGNMENT abi \<and> frames_within n t"
    using packed_walk [OF assms(2,3) assms(1) s0(1) _ s0(2)] assms(2) by simp
  fix k
  from packed_walk_upto [OF assms(2,3), of buf walk_start k] assms(1,2) s0
  obtain u where u: "walk_upto k abi buf n walk_start = Inr u" "packed abi buf n (ptr u)"
    "ptr u < n + BPF_ALIGNMENT abi" "frames_within n u"
    by auto
  have "ptr u < n \<longrightarrow> header_within abi n (ptr u)"
    using packed_step [OF u(2) _ assms(2,3) u(4)] by blast
  with u show "\<exists>u. walk_upto k abi buf n walk_start = Inr u \<and>
              ptr u < n + BPF_ALIGNMENT abi \<and> frames_within n u \<and>
              (ptr u < n \<longrightarrow> header_within abi n (ptr u))"
    by blast
qed

theorem packed_walk_within_read_witness:
  "packed example_abi (buffer_after_read 128 (ReadData (record_A @ unpadded_B))) 92 0 \<and>
   read_return 128 (ReadData (record_A @ unpadded_B)) = 92 \<and>
   walk example_abi (buffer_after_read 128 (ReadData (record_A @ unpadded_B))) 92 walk_start =
     Some (Inr \<lparr>ptr = 96, frames = [(18, 46), (82, 10)]\<rparr>) \<and>
   frames_within 92 \<lparr>ptr = 96, frames = [(18, 46), (82, 10)]\<rparr> \<and>
   walk_upto 1 example_abi (buffer_after_read 128 (ReadData (record_A @ unpadded_B))) 92
     walk_start = Inr \<lparr>ptr = 64, frames = [(18, 46)]\<rparr> \<and>
   header_within example_abi 92 64"
proof -
  have a: "0 < BPF_ALIGNMENT example_abi" by (simp add: example_abi_def)
  have n: "(92::nat) < 2 ^ 31" by simp
  have r: "read_return 128 (ReadData (record_A @ unpadded_B)) = 92"
    by (simp add: read_return_def record_A_def unpadded_B_def)
  note th = packed_walk_within_read [OF unpadded_packed a n]
  from th unpadded_runs(1)
  have f: "frames_within 92 \<lparr>ptr = 96, frames = [(18, 46), (82, 10)]\<rparr>" by auto
  from conjunct2 [OF th, THEN spec, of 1] unpadded_runs(2)
  have h: "header_within example_abi 92 64" by auto
  from unpadded_packed r unpadded_runs f h show ?thesis by simp
qed

text \<open>
  Claim C2 as stated fails. For a read of 70 octets, record A and six more octets, the
  walk parses a second header at offset 64: it loads the octets 80, 81 and 72 to 75,
  past the 70 read, finds both lengths 0 there (the buffer was cleared), leaves the
  cursor at 64 and never terminates. And for a read of record B without padding, 28
  octets, the walk ends with the cursor at 32.
\<close>

theorem truncated_read_counterexample:
  "read_return 128 (ReadData trailing_six) = 70 \<and>
   walk_upto 1 example_abi (buffer_after_read 128 (ReadData trailing_six)) 70 walk_start =
     Inr \<lparr>ptr = 64, frames = [(18, 46)]\<rparr> \<and>
   hdrlen_octets example_abi 64 = [80, 81] \<and>
   caplen_octets example_abi 64 = [72, 73, 74, 75] \<and>
   \<not> header_within example_abi 70 64 \<and>
   walk_step example_abi (buffer_after_read 128 (ReadData trailing_six))
     \<lparr>ptr = 64, frames = [(18, 46)]\<rparr> = Inr \<lparr>ptr = 64, frames = [(18, 46), (64, 0)]\<rparr> \<and>
   walk example_abi (buffer_after_read 128 (ReadData trailing_six)) 70 walk_start = None \<and>
   read_return 128 (ReadData unpadded_B) = 28 \<and>
   walk example_abi (buffer_after_read 128 (ReadData unpadded_B)) 28 walk_start =
     Some (Inr \<lparr>ptr = 32, frames = [(18, 10)]\<rparr>)"
proof -
  let ?buf = "buffer_after_read 128 (ReadData trailing_six)"
  have r: "read_return 128 (ReadData trailing_six) = 70"
    "read_return 128 (ReadData unpadded_B) = 28"
    by (simp_all add: read_return_def trailing_six_def record_A_def unpadded_B_def)
  have o: "hdrlen_octets example_abi 64 = [80, 81]"
    "caplen_octets example_abi 64 = [72, 73, 74, 75]"
    by (simp_all add: hdrlen_octets_def caplen_octets_def example_abi_def)
  have h: "\<not> header_within example_abi 70 64" by (simp add: header_within_def o)
  have z: "record_length example_abi 0 0 = 0" by (simp add: record_length_def wordAlign_0)
  have st: "walk_step example_abi ?buf \<lparr>ptr = 64, frames = [(18, 46)]\<rparr> =
      Inr \<lparr>ptr = 64, frames = [(18, 46), (64, 0)]\<rparr>"
    using trailing_six_fields z by (simp add: walk_step_def)
  have "walk example_abi ?buf 70 \<lparr>ptr = 64, frames = [(18, 46)]\<rparr> = None"
    using trailing_six_fields z by (intro walk_stuck [where h = 0 and c = 0]) simp_all
  then have d: "walk example_abi ?buf 70 walk_start = None"
    using walk_upto_walk [OF trailing_six_upto_1] by simp
  have u: "walk example_abi (buffer_after_read 128 (ReadData unpadded_B)) 28 walk_start =
     Some (Inr \<lparr>ptr = 32, frames = [(18, 10)]\<rparr>)"
    by code_simp
  from r trailing_six_upto_1 o h st d u show ?thesis by simp
qed

subsection \<open>The capture loop\<close>

lemma handler_keeps_stopped: "\<not> running p \<Longrightarrow> \<not> running (fold signalHandler sigs p)"
  by (induction sigs arbitrary: p) (simp_all add: signalHandler_def signal_SIGINT_def Let_def)

lemma handler_run_stops: "SIGINT \<in> set sigs \<Longrightarrow> \<not> running (fold signalHandler sigs p)"
proof (induction sigs arbitrary: p)
  case Nil
  then show ?case by simp
next
  case (Cons x sigs)
  show ?case
  proof (cases "x = SIGINT")
    case True
    then have "\<not> running (signalHandler x p)"
      by (simp add: signalHandler_def signal_SIGINT_def)
    then show ?thesis using handler_keeps_stopped by simp
  next
    case False
    with Cons show ?thesis by simp
  qed
qed

lemma sniff_stopped: "\<not> running p \<Longrightarrow> sniff abi al sz p its = ([], Returned)"
  by (cases its) simp_all

lemma sniff_ignores_rest:
  "running p \<Longrightarrow> SIGINT \<in> set (handler_runs it) \<Longrightarrow>
   sniff abi True sz p (it # its) = sniff abi True sz p [it] \<and>
   snd (sniff abi True sz p [it]) \<noteq> StillRunning"
proof -
  assume r: "running p" and s: "SIGINT \<in> set (handler_runs it)"
  have stop: "\<not> running (fold signalHandler (handler_runs it) p)"
    using s by (rule handler_run_stops)
  have a: "sniff abi True sz (fold signalHandler (handler_runs it) p) its = ([], Returned)"
    using stop by (rule sniff_stopped)
  have b: "sniff abi True sz (fold signalHandler (handler_runs it) p) [] = ([], Returned)"
    using stop by (rule sniff_stopped)
  show ?thesis
    using r a b by (simp add: Let_def split: option.splits sum.splits)
qed

text \<open>
  Claim C6. With the flag false at the loop test, \<^verbatim>\<open>sniff\<close> returns without a call of
  \<^verbatim>\<open>read\<close>, whatever inputs remain. When the handler runs for \<^verbatim>\<open>SIGINT\<close> during an
  iteration, no later input is used (no further \<^verbatim>\<open>read\<close> is called) and the loop is
  not left running; when that iteration completes (its \<^verbatim>\<open>read\<close> returns nothing,
  or its walk ends), the events are those of that iteration alone and \<^verbatim>\<open>sniff\<close>
  returns.
\<close>

theorem shutdown_stops_reading:
  "(\<not> running p \<longrightarrow> sniff abi al sz p its = ([], Returned)) \<and>
   (running p \<and> SIGINT \<in> set (handler_runs it) \<longrightarrow>
      sniff abi True sz p (it # its) = sniff abi True sz p [it] \<and>
      snd (sniff abi True sz p [it]) \<noteq> StillRunning) \<and>
   (running p \<and> SIGINT \<in> set (handler_runs it) \<and> read_return sz (from_read it) \<le> 0 \<longrightarrow>
      sniff abi True sz p (it # its) = ([Read (read_return sz (from_read it))], Returned)) \<and>
   (running p \<and> SIGINT \<in> set (handler_runs it) \<and> 0 < read_return sz (from_read it) \<and>
    walk abi (buffer_after_read sz (from_read it)) (nat (read_return sz (from_read it)))
      walk_start = Some (Inr s) \<longrightarrow>
      sniff abi True sz p (it # its) =
        (Read (read_return sz (from_read it)) # frame_events s, Returned))"
proof (intro conjI impI)
  assume "\<not> running p"
  then show "sniff abi al sz p its = ([], Returned)" by (rule sniff_stopped)
next
  assume a: "running p \<and> SIGINT \<in> set (handler_runs it)"
  then have b: "sniff abi True sz p (it # its) = sniff abi True sz p [it] \<and>
      snd (sniff abi True sz p [it]) \<noteq> StillRunning"
    by (intro sniff_ignores_rest) blast+
  from b show "sniff abi True sz p (it # its) = sniff abi True sz p [it]" by (rule conjunct1)
  from b show "snd (sniff abi True sz p [it]) \<noteq> StillRunning" by (rule conjunct2)
next
  assume a: "running p \<and> SIGINT \<in> set (handler_runs it) \<and> read_return sz (from_read it) \<le> 0"
  then have "\<not> running (fold signalHandler (handler_runs it) p)"
    by (simp add: handler_run_stops)
  then have "sniff abi True sz (fold signalHandler (handler_runs it) p) its = ([], Returned)"
    by (rule sniff_stopped)
  with a show "sniff abi True sz p (it # its) =
      ([Read (read_return sz (from_read it))], Returned)"
    by (simp add: Let_def)
next
  assume a: "running p \<and> SIGINT \<in> set (handler_runs it) \<and> 0 < read_return sz (from_read it) \<and>
    walk abi (buffer_after_read sz (from_read it)) (nat (read_return sz (from_read it)))
      walk_start = Some (Inr s)"
  then have "\<not> running (fold signalHandler (handler_runs it) p)"
    by (simp add: handler_run_stops)
  then have "sniff abi True sz (fold signalHandler (handler_runs it) p) its = ([], Returned)"
    by (rule sniff_stopped)
  with a show "sniff abi True sz p (it # its) =
      (Read (read_return sz (from_read it)) # frame_events s, Returned)"
    by (simp add: Let_def)
qed

theorem shutdown_stops_reading_witness:
  "running process_start \<and> \<not> running (signalHandler SIGINT process_start) \<and>
   sniff example_abi True 128 (signalHandler SIGINT process_start)
     [\<lparr>from_read = ReadData two_records, handler_runs = []\<rparr>] = ([], Returned) \<and>
   sniff example_abi True 128 process_start
     [\<lparr>from_read = ReadData [], handler_runs = [SIGINT]\<rparr>,
      \<lparr>from_read = ReadData two_records, handler_runs = []\<rparr>] = ([Read 0], Returned) \<and>
   sniff example_abi True 128 process_start
     [\<lparr>from_read = ReadData two_records, handler_runs = [SIGINT]\<rparr>,
      \<lparr>from_read = ReadData two_records, handler_runs = []\<rparr>] =
     ([Read 96, Frame 18 46, Frame 82 10], Returned) \<and>
   sniff example_abi True 128 process_start
     [\<lparr>from_read = ReadData trailing_six, handler_runs = [SIGINT]\<rparr>,
      \<lparr>from_read = ReadData two_records, handler_runs = []\<rparr>] =
   sniff example_abi True 128 process_start
     [\<lparr>from_read = ReadData trailing_six, handler_runs = [SIGINT]\<rparr>]"
proof -
  have r: "running process_start" "\<not> running (signalHandler SIGINT process_start)"
    by (simp_all add: process_start_def signal_SIGINT_def signalHandler_def)
  have v: "read_return 128 (ReadData []) = 0" "read_return 128 (ReadData two_records) = 96"
    by (simp_all add: read_return_def two_records_def record_A_def record_B_def unpadded_B_def)
  note th = shutdown_stops_reading [where abi = example_abi and sz = 128]
  from th [where p = "signalHandler SIGINT process_start" and al = True
      and its = "[\<lparr>from_read = ReadData two_records, handler_runs = []\<rparr>]"] r
  have a: "sniff example_abi True 128 (signalHandler SIGINT process_start)
     [\<lparr>from_read = ReadData two_records, handler_runs = []\<rparr>] = ([], Returned)"
    by simp
  from th [where p = process_start and it = "\<lparr>from_read = ReadData [], handler_runs = [SIGINT]\<rparr>"
      and its = "[\<lparr>from_read = ReadData two_records, handler_runs = []\<rparr>]"] r v
  have b: "sniff example_abi True 128 process_start
     [\<lparr>from_read = ReadData [], handler_runs = [SIGINT]\<rparr>,
      \<lparr>from_read = ReadData two_records, handler_runs = []\<rparr>] = ([Read 0], Returned)"
    by simp
  from th [where p = process_start
      and it = "\<lparr>from_read = ReadData two_records, handler_runs = [SIGINT]\<rparr>"
      and its = "[\<lparr>from_read = ReadData two_records, handler_runs = []\<rparr>]"
      and s = "\<lparr>ptr = 96, frames = [(18, 46), (82, 10)]\<rparr>"] r v two_records_walk_example
  have c: "sniff example_abi True 128 process_start
     [\<lparr>from_read = ReadData two_records, handler_runs = [SIGINT]\<rparr>,
      \<lparr>from_read = ReadData two_records, handler_runs = []\<rparr>] =
     ([Read 96, Frame 18 46, Frame 82 10], Returned)"
    by (simp add: frame_events_def)
  from th [where p = process_start
      and it = "\<lparr>from_read = ReadData trailing_six, handler_runs = [SIGINT]\<rparr>"
      and its = "[\<lparr>from_read = ReadData two_records, handler_runs = []\<rparr>]"] r
  have d: "sniff example_abi True 128 process_start
     [\<lparr>from_read = ReadData trailing_six, handler_runs = [SIGINT]\<rparr>,
      \<lparr>from_read = ReadData two_records, handler_runs = []\<rparr>] =
   sniff example_abi True 128 process_start
     [\<lparr>from_read = ReadData trailing_six, handler_runs = [SIGINT]\<rparr>]"
    by simp
  from r a b c d show ?thesis by blast
qed

text \<open>
  Claim C7. An iteration whose \<^verbatim>\<open>read\<close> returns 0 or less contributes the call of
  \<^verbatim>\<open>read\<close> and no frame, and the loop goes on to its next test: with no input left
  it is still running if the flag is still true.
\<close>

theorem no_data_tolerated:
  "running p \<and> read_return sz (from_read it) \<le> 0 \<longrightarrow>
     sniff abi True sz p (it # its) =
       (Read (read_return sz (from_read it)) #
          fst (sniff abi True sz (fold signalHandler (handler_runs it) p) its),
        snd (sniff abi True sz (fold signalHandler (handler_runs it) p) its)) \<and>
     sniff abi True sz p [it] =
       ([Read (read_return sz (from_read it))],
        if running (fold signalHandler (handler_runs it) p) then StillRunning else Returned)"
  by (simp add: Let_def split: prod.splits)

theorem no_data_tolerated_witness:
  "running process_start \<and>
   read_return 128 (ReadFails 35) = - 1 \<and> read_return 128 (ReadData []) = 0 \<and>
   sniff example_abi True 128 process_start
     [\<lparr>from_read = ReadFails 35, handler_runs = []\<rparr>,
      \<lparr>from_read = ReadData [], handler_runs = []\<rparr>] =
     ([Read (- 1), Read 0], StillRunning)"
proof -
  have r: "running process_start" by (simp add: process_start_def signal_SIGINT_def)
  have v: "read_return 128 (ReadFails 35) = - 1" "read_return 128 (ReadData []) = 0"
    by (simp_all add: read_return_def)
  from no_data_tolerated [where p = process_start and sz = 128 and abi = example_abi
      and it = "\<lparr>from_read = ReadData [], handler_runs = []\<rparr>" and its = "[]"] r v
  have two: "sniff example_abi True 128 process_start [\<lparr>from_read = ReadData [], handler_runs = []\<rparr>] =
     ([Read 0], StillRunning)"
    by simp
  from no_data_tolerated [where p = process_start and sz = 128 and abi = example_abi
      and it = "\<lparr>from_read = ReadFails 35, handler_runs = []\<rparr>"
      and its = "[\<lparr>from_read = ReadData [], handler_runs = []\<rparr>]"] r v two
  show ?thesis by simp
qed

end
